theory Spec2Isabelle
  imports Complex_Main "HOL-Library.AList"
begin

section \<open>Python primitives used by the services\<close>

text \<open>
  Strings are lists of characters; a character stands for a code point below 256,
  which is as far as the type reaches. The services use slicing with an integer bound,
  \<open>str.strip\<close>, \<open>str.split\<close> and \<open>str.join\<close>; each is written out with the
  behaviour Python gives it (a negative or oversized slice bound, runs of whitespace).
\<close>

definition clamp_index :: "nat \<Rightarrow> int \<Rightarrow> nat" where
  \<comment> \<open>How a slice bound is normalised against a sequence of length \<open>n\<close>.\<close>
  "clamp_index n i = (if i < 0 then nat (max (i + int n) 0) else min (nat i) n)"

definition slice_to :: "'a list \<Rightarrow> int \<Rightarrow> 'a list" where
  \<comment> \<open>\<open>xs[:b]\<close>\<close>
  "slice_to xs b = take (clamp_index (length xs) b) xs"

definition is_space :: "char \<Rightarrow> bool" where
  \<comment> \<open>The code points below 256 that \<open>str.isspace\<close> accepts and \<open>str.strip()\<close> and
      \<open>str.split()\<close> remove: TAB, LF, VT, FF, CR, FS, GS, RS, US, SPACE, NEL (U+0085)
      and NO-BREAK SPACE (U+00A0).\<close>
  "is_space c =
     (c \<in> set [CHR 0x09, CHR 0x0A, CHR 0x0B, CHR 0x0C, CHR 0x0D,
               CHR 0x1C, CHR 0x1D, CHR 0x1E, CHR 0x1F, CHR 0x20, CHR 0x85, CHR 0xA0])"

definition strip :: "string \<Rightarrow> string" where
  "strip s = rev (dropWhile is_space (rev (dropWhile is_space s)))"

fun split_from :: "string \<Rightarrow> string \<Rightarrow> string list" where
  \<comment> \<open>\<open>split_from w s\<close>: the words of \<open>s\<close>, the first one begun with \<open>w\<close>\<close>
  "split_from w [] = (if w = [] then [] else [w])"
| "split_from w (c # cs) =
     (if is_space c then (if w = [] then split_from [] cs else w # split_from [] cs)
      else split_from (w @ [c]) cs)"

definition split_str :: "string \<Rightarrow> string list" where
  \<comment> \<open>\<open>s.split()\<close>: the maximal runs of characters that are not whitespace\<close>
  "split_str s = split_from [] s"

fun join :: "string \<Rightarrow> string list \<Rightarrow> string" where
  \<comment> \<open>\<open>sep.join(parts)\<close>\<close>
  "join sep [] = []"
| "join sep [p] = p"
| "join sep (p # q # ps) = p @ sep @ join sep (q # ps)"

section \<open>DocumentService and EmbeddingService\<close>

text \<open>
  Exceptions are values. \<open>err_str\<close> is Python's \<open>str(e)\<close>: the message, and for a
  \<open>KeyError\<close> the quoted key.
\<close>

datatype py_error =
    KeyError string
  | ValueError string
  | TypeError string
  | AttributeError string
  | TimeoutError
  | Exception string

fun err_str :: "py_error \<Rightarrow> string" where
  "err_str (KeyError k) = [CHR 0x27] @ k @ [CHR 0x27]"
| "err_str (ValueError m) = m"
| "err_str (TypeError m) = m"
| "err_str (AttributeError m) = m"
| "err_str TimeoutError = []"
| "err_str (Exception m) = m"

fun str_nat :: "nat \<Rightarrow> string" where
  "str_nat n =
     (if n < 10 then [''0123456789'' ! n]
      else str_nat (n div 10) @ [''0123456789'' ! (n mod 10)])"

declare str_nat.simps [simp del]

definition str_int :: "int \<Rightarrow> string" where
  \<comment> \<open>\<open>str(i)\<close>, as an f-string renders an integer.\<close>
  "str_int i = (if i < 0 then ''-'' @ str_nat (nat (- i)) else str_nat (nat i))"

text \<open>
  The vector index holds one named collection per document. A stored record carries the
  chunk, its embedding and a metadata dict; a metadata value is an integer or a string.
  Similarities and distances are floats in the source and reals here: the service only
  subtracts from 1 and compares.
\<close>

datatype mval = MInt int | MStr string

type_synonym metadata = "(string \<times> mval) list"

record entry =
  entry_id :: string
  entry_document :: string
  entry_embedding :: "real list"
  entry_metadata :: metadata

type_synonym vector_index = "string \<rightharpoonup> entry list"

text \<open>
  What lies outside the repository is a parameter: the embedding provider
  (\<open>genai.embed_content\<close>, given the cleaned text), the PDF reader, and
  \<open>collection.query\<close> of the vector store, which answers with the three parallel lists
  the service zips. Each may raise. \<open>chroma_client\<close> is \<open>None\<close> when the constructor
  could not create the client.
\<close>

record vector_client =
  collection_query ::
    "entry list \<Rightarrow> real list \<Rightarrow> int \<Rightarrow>
       py_error + (string list \<times> metadata option list \<times> real list)"

record document_service =
  chroma_client :: "vector_client option"
  embed_content :: "string \<Rightarrow> py_error + real list"
  extract_text_from_pdf :: "string \<Rightarrow> py_error + string"

datatype provider_call =
    EmbedContent string
  | GetCollection string
  | CollectionQuery string int

record search_result =
  content :: string
  metadata :: metadata
  similarity :: real
  document_id :: int
  chunk_index :: mval
  filename :: mval

definition collection_name :: "int \<Rightarrow> string" where
  \<comment> \<open>\<open>f"document_{doc_id}"\<close>\<close>
  "collection_name doc_id = ''document_'' @ str_int doc_id"

definition dict_get :: "('k \<times> 'v) list \<Rightarrow> 'k \<Rightarrow> 'v \<Rightarrow> 'v" where
  \<comment> \<open>\<open>d.get(k, default)\<close>\<close>
  "dict_get d k dflt = (case map_of d k of None \<Rightarrow> dflt | Some v \<Rightarrow> v)"

subsection \<open>EmbeddingService.generate_query_embedding\<close>

text \<open>
  \<open>_clean_text\<close> collapses whitespace and cuts the text at 30000 characters; an empty
  text stays empty. \<open>generate_query_embedding\<close> raises on a query that is empty after
  cleaning, before the provider is asked, and wraps every exception in one of its own.
  The provider calls made are returned beside the result.
\<close>

definition clean_text :: "string \<Rightarrow> string" where
  "clean_text t =
     (if t = [] then []
      else (let cleaned = join '' '' (split_str (strip t))
            in if length cleaned > 30000 then slice_to cleaned 30000 else cleaned))"

definition generate_query_embedding ::
  "document_service \<Rightarrow> string \<Rightarrow> (py_error + real list) \<times> provider_call list" where
  "generate_query_embedding svc query =
     (let clean_query = clean_text query in
      if clean_query = [] then
        (Inl (Exception (''Error generating query embedding: ''
                         @ ''Query text is empty or invalid'')), [])
      else
        (case embed_content svc clean_query of
           Inl e \<Rightarrow>
             (Inl (Exception (''Error generating query embedding: '' @ err_str e)),
              [EmbedContent clean_query])
         | Inr embedding \<Rightarrow> (Inr embedding, [EmbedContent clean_query])))"

subsection \<open>search_documents\<close>

text \<open>
  The loop over the rows of one document's answer. A row whose similarity passes the
  threshold is appended; a row whose metadata is \<open>None\<close> makes \<open>metadata.get\<close> raise,
  which ends the work on this document (the \<open>except\<close> of the document loop continues
  with the next one) and keeps what was appended before.
\<close>

fun scan_rows ::
  "real \<Rightarrow> int \<Rightarrow> (string \<times> metadata option \<times> real) list \<Rightarrow> search_result list \<Rightarrow>
     search_result list" where
  "scan_rows similarity_threshold doc_id [] results = results"
| "scan_rows similarity_threshold doc_id ((doc, md, distance) # rows) results =
     (let sim = 1 - distance
      in if sim \<ge> similarity_threshold then
           (case md of
              None \<Rightarrow> results
            | Some m \<Rightarrow>
                scan_rows similarity_threshold doc_id rows
                  (results @
                    [\<lparr>content = doc, metadata = m, similarity = sim, document_id = doc_id,
                      chunk_index = dict_get m ''chunk_index'' (MInt 0),
                      filename = dict_get m ''filename'' (MStr ''unknown'')\<rparr>]))
         else scan_rows similarity_threshold doc_id rows results)"

text \<open>
  The loop over \<open>document_ids\<close>, with the provider calls it makes recorded in order. A
  missing collection, a failed or timed-out query: the document is skipped.
\<close>

fun search_loop ::
  "vector_client \<Rightarrow> vector_index \<Rightarrow> real list \<Rightarrow> int \<Rightarrow> real \<Rightarrow> int list \<Rightarrow>
     search_result list \<times> provider_call list \<Rightarrow> search_result list \<times> provider_call list" where
  "search_loop client index query_embedding limit similarity_threshold [] acc = acc"
| "search_loop client index query_embedding limit similarity_threshold (doc_id # ids)
       (results, calls) =
     (let name = collection_name doc_id in
      case index name of
        None \<Rightarrow>
          search_loop client index query_embedding limit similarity_threshold ids
            (results, calls @ [GetCollection name])
      | Some records \<Rightarrow>
          (case collection_query client records query_embedding limit of
             Inl e \<Rightarrow>
               search_loop client index query_embedding limit similarity_threshold ids
                 (results, calls @ [GetCollection name, CollectionQuery name limit])
           | Inr (documents, metadatas, distances) \<Rightarrow>
               search_loop client index query_embedding limit similarity_threshold ids
                 (scan_rows similarity_threshold doc_id
                    (zip documents (zip metadatas distances)) results,
                  calls @ [GetCollection name, CollectionQuery name limit])))"

definition sort_by_similarity_desc :: "search_result list \<Rightarrow> search_result list" where
  \<comment> \<open>\<open>results.sort(key=lambda x: x["similarity"], reverse=True)\<close>: stable, descending.\<close>
  "sort_by_similarity_desc results = sort_key (\<lambda>r. - similarity r) results"

definition search_documents ::
  "document_service \<Rightarrow> vector_index \<Rightarrow> string \<Rightarrow> int list \<Rightarrow> int \<Rightarrow> real \<Rightarrow>
     search_result list \<times> provider_call list" where
  \<comment> \<open>The returned list, and the provider calls made. Every exception is caught inside.\<close>
  "search_documents svc index query document_ids limit similarity_threshold =
     (case chroma_client svc of
        None \<Rightarrow> ([], [])
      | Some client \<Rightarrow>
          (case generate_query_embedding svc query of
             (Inl e, calls) \<Rightarrow> ([], calls)
           | (Inr query_embedding, calls) \<Rightarrow>
               (case search_loop client index query_embedding limit similarity_threshold
                       document_ids ([], calls) of
                  (results, calls') \<Rightarrow>
                    (slice_to (sort_by_similarity_desc results) limit, calls'))))"

subsection \<open>Ingestion: process_document and _generate_embeddings\<close>

text \<open>
  A row of the documents table, with the columns the service reads and writes. The
  table is a list of rows; \<open>db.query(Document).filter(Document.id == document_id).first()\<close>
  is \<open>find_document\<close> (the model writes \<open>did\<close> for \<open>document_id\<close>), and a commit of the
  changed row is \<open>commit_document\<close>.
\<close>

record document =
  doc_id :: int
  original_filename :: string
  file_path :: string
  extracted_text :: "string option"
  embedding_status :: string






subsection \<open>Example services\<close>

definition example_client :: vector_client where
  "example_client =
     \<lparr>collection_query = (\<lambda>records q n.
         Inr (map entry_document records, map (\<lambda>r. Some (entry_metadata r)) records,
              [1/10, 1/2, 1/5]))\<rparr>"

definition example_service :: document_service where
  "example_service =
     \<lparr>chroma_client = Some example_client,
      embed_content = (\<lambda>t. Inr [1]),
      extract_text_from_pdf = (\<lambda>path. Inr ''Hello. World.'')\<rparr>"


definition example_index :: vector_index where
  "example_index =
     [''document_1'' \<mapsto>
        [\<lparr>entry_id = ''doc_1_chunk_0'', entry_document = ''A'', entry_embedding = [1],
           entry_metadata = [(''filename'', MStr ''f.pdf'')]\<rparr>,
         \<lparr>entry_id = ''doc_1_chunk_1'', entry_document = ''B'', entry_embedding = [1],
           entry_metadata = [(''filename'', MStr ''f.pdf'')]\<rparr>,
         \<lparr>entry_id = ''doc_1_chunk_2'', entry_document = ''C'', entry_embedding = [1],
           entry_metadata = [(''filename'', MStr ''f.pdf'')]\<rparr>]]"


section \<open>WorkflowExecutionService\<close>

text \<open>
  Values that travel through node configs and the execution context: JSON scalars,
  the list of search results, the usage dict and the list of web results of the
  language-model service. \<open>truthy\<close> is Python's truth test.
\<close>

type_synonym web_result = "(string \<times> string) list"

datatype pyval =
    VNone
  | VBool bool
  | VInt int
  | VFloat real
  | VStr string
  | VResults "search_result list"
  | VUsage "(string \<times> real) list"
  | VWeb "web_result list"

fun truthy :: "pyval \<Rightarrow> bool" where
  "truthy VNone = False"
| "truthy (VBool b) = b"
| "truthy (VInt i) = (i \<noteq> 0)"
| "truthy (VFloat x) = (x \<noteq> 0)"
| "truthy (VStr s) = (s \<noteq> [])"
| "truthy (VResults rs) = (rs \<noteq> [])"
| "truthy (VUsage u) = (u \<noteq> [])"
| "truthy (VWeb w) = (w \<noteq> [])"

text \<open>
  A node of the stored graph: \<open>n['id']\<close>, \<open>n['type']\<close> and the dict under
  \<open>n.get('data', {}).get('config', {})\<close> (\<open>None\<close> when absent). An edge has a source
  and a target id.
\<close>

record node =
  node_id :: string
  node_type :: string
  node_config :: "(string \<times> pyval) list option"

record edge =
  source :: string
  target :: string

text \<open>
  The collaborators of the executor are parameters: the workflow table, the table of
  linked documents, \<open>DocumentService.search_documents\<close> and the two generation calls of
  \<open>LLMService\<close> as the handlers call them (each may raise), the readings of
  \<open>time.time()\<close> in the order they are taken, and the rendering \<open>f"{x:.2f}"\<close>.
\<close>

record llm_result =
  result_response :: string
  result_model :: string
  result_usage :: "(string \<times> real) list"
  result_web_results :: "web_result list option"

record workflow_services =
  find_workflow :: "int \<Rightarrow> (node list \<times> edge list) option"
  linked_document_ids :: "int \<Rightarrow> int list"
  document_search :: "pyval \<Rightarrow> int list \<Rightarrow> pyval \<Rightarrow> pyval \<Rightarrow> py_error + search_result list"
  generate_response ::
    "pyval \<Rightarrow> pyval \<Rightarrow> pyval \<Rightarrow> pyval \<Rightarrow> pyval \<Rightarrow> pyval \<Rightarrow> py_error + llm_result"
  generate_response_with_web_search ::
    "pyval \<Rightarrow> pyval \<Rightarrow> pyval \<Rightarrow> pyval \<Rightarrow> pyval \<Rightarrow> pyval \<Rightarrow> pyval \<Rightarrow> py_error + llm_result"
  clock :: "nat \<Rightarrow> real"
  format_2f :: "real \<Rightarrow> string"

type_synonym exec_context = "string \<rightharpoonup> pyval"

definition context_get :: "exec_context \<Rightarrow> string \<Rightarrow> pyval \<Rightarrow> pyval" where
  \<comment> \<open>\<open>context.get(key, default)\<close>\<close>
  "context_get ctx key dflt = (case ctx key of None \<Rightarrow> dflt | Some v \<Rightarrow> v)"

record exec_step =
  component :: string
  step_node_id :: string
  step_result :: "(string \<times> pyval) list"
  timestamp :: real

record execution_result =
  response :: pyval
  execution_time :: real
  execution_log :: "exec_step list"
  final_context :: exec_context

subsection \<open>_build_execution_order\<close>

text \<open>
  The two dicts keep their keys in insertion order (an association list with
  \<open>AList.update\<close>); reading a missing key raises \<open>KeyError\<close>. \<open>add_edges\<close> is the loop
  over the edges, \<open>relax\<close> the loop over the neighbours of the node just popped, and
  \<open>kahn_loop\<close> the \<open>while queue\<close> loop.
\<close>

definition init_dict :: "node list \<Rightarrow> 'v \<Rightarrow> (string \<times> 'v) list" where
  \<comment> \<open>\<open>{node['id']: v for node in nodes}\<close>\<close>
  "init_dict nodes v = foldl (\<lambda>d n. AList.update (node_id n) v d) [] nodes"

fun add_edges ::
  "edge list \<Rightarrow> (string \<times> string list) list \<Rightarrow> (string \<times> int) list \<Rightarrow>
     py_error + (string \<times> string list) list \<times> (string \<times> int) list" where
  "add_edges [] graph in_degree = Inr (graph, in_degree)"
| "add_edges (e # es) graph in_degree =
     (case map_of graph (source e) of
        None \<Rightarrow> Inl (KeyError (source e))
      | Some targets \<Rightarrow>
          (case map_of in_degree (target e) of
             None \<Rightarrow> Inl (KeyError (target e))
           | Some d \<Rightarrow>
               add_edges es (AList.update (source e) (targets @ [target e]) graph)
                 (AList.update (target e) (d + 1) in_degree)))"

fun relax ::
  "string list \<Rightarrow> (string \<times> int) list \<Rightarrow> string list \<Rightarrow>
     py_error + (string \<times> int) list \<times> string list" where
  "relax [] in_degree queue = Inr (in_degree, queue)"
| "relax (neighbor # rest) in_degree queue =
     (case map_of in_degree neighbor of
        None \<Rightarrow> Inl (KeyError neighbor)
      | Some d \<Rightarrow>
          relax rest (AList.update neighbor (d - 1) in_degree)
            (if d - 1 = 0 then queue @ [neighbor] else queue))"

text \<open>
  The \<open>while\<close> loop ends on every state: an in-degree only falls, so it reaches 0 at
  most once per key, and each pass takes one node off the queue. The measure is the
  length of the queue plus the number of keys whose in-degree is still positive.
\<close>

definition pending :: "(string \<times> int) list \<Rightarrow> nat" where
  "pending in_degree = card {k. \<exists>d. map_of in_degree k = Some d \<and> 0 < d}"

lemma pending_finite: "finite {k. \<exists>d. map_of in_degree k = Some d \<and> 0 < d}"
  by (rule finite_subset[OF _ finite_dom_map_of[of in_degree]]) auto

lemma pending_update:
  assumes "map_of in_degree n = Some d"
  shows "pending (AList.update n (d - 1) in_degree) + (if d - 1 = 0 then 1 else 0)
           = pending in_degree"
proof -
  let ?S = "{k. \<exists>d. map_of in_degree k = Some d \<and> 0 < d}"
  let ?S' = "{k. \<exists>e. map_of (AList.update n (d - 1) in_degree) k = Some e \<and> 0 < e}"
  have fin: "finite ?S" by (rule pending_finite)
  show ?thesis
  proof (cases "d - 1 = 0")
    case True
    then have eq: "?S' = ?S - {n}" by (auto simp: update_conv')
    have "n \<in> ?S" using assms True by simp
    from card.remove[OF fin this] have "card ?S = Suc (card (?S - {n}))" .
    with True eq show ?thesis unfolding pending_def by simp
  next
    case False
    then have "?S' = ?S" using assms by (auto simp: update_conv' split: if_splits)
    with False show ?thesis unfolding pending_def by simp
  qed
qed

lemma relax_measure:
  "relax ns in_degree queue = Inr (in_degree', queue') \<Longrightarrow>
   length queue' + pending in_degree' = length queue + pending in_degree"
proof (induction ns arbitrary: in_degree queue)
  case Nil
  then show ?case by simp
next
  case (Cons n ns)
  then obtain d where d: "map_of in_degree n = Some d"
    by (auto split: option.splits)
  with Cons.prems have
    "relax ns (AList.update n (d - 1) in_degree) (if d - 1 = 0 then queue @ [n] else queue)
       = Inr (in_degree', queue')"
    by simp
  from Cons.IH[OF this] pending_update[OF d] show ?case
    by (simp split: if_splits)
qed

function kahn_loop ::
  "(string \<times> string list) list \<Rightarrow> (string \<times> int) list \<Rightarrow> string list \<Rightarrow> string list \<Rightarrow>
     py_error + string list" where
  "kahn_loop graph in_degree [] execution_order = Inr execution_order"
| "kahn_loop graph in_degree (current # queue) execution_order =
     (case map_of graph current of
        None \<Rightarrow> Inl (KeyError current)
      | Some neighbors \<Rightarrow>
          (case relax neighbors in_degree queue of
             Inl e \<Rightarrow> Inl e
           | Inr (in_degree', queue') \<Rightarrow>
               kahn_loop graph in_degree' queue' (execution_order @ [current])))"
  by pat_completeness auto
termination
proof (relation "measure (\<lambda>(graph, in_degree, queue, execution_order).
                   length queue + pending in_degree)")
  show "wf (measure (\<lambda>(graph, in_degree, queue, execution_order).
                   length queue + pending in_degree))"
    by simp
next
  fix graph in_degree current queue execution_order neighbors x in_degree' queue'
  assume "relax neighbors in_degree queue = Inr x" and "(in_degree', queue') = x"
  then have "relax neighbors in_degree queue = Inr (in_degree', queue')" by simp
  from relax_measure[OF this]
  show "((graph, in_degree', queue', execution_order @ [current]),
         (graph, in_degree, current # queue, execution_order))
        \<in> measure (\<lambda>(graph, in_degree, queue, execution_order).
                   length queue + pending in_degree)"
    by simp
qed

definition build_execution_order :: "node list \<Rightarrow> edge list \<Rightarrow> py_error + string list" where
  "build_execution_order nodes edges =
     (case add_edges edges (init_dict nodes []) (init_dict nodes 0) of
        Inl e \<Rightarrow> Inl e
      | Inr (graph, in_degree) \<Rightarrow>
          kahn_loop graph in_degree (map fst (filter (\<lambda>(k, d). d = 0) in_degree)) [])"

subsection \<open>The component handlers\<close>

fun str_mval :: "mval \<Rightarrow> string" where
  \<comment> \<open>how an f-string renders a metadata value\<close>
  "str_mval (MStr s) = s"
| "str_mval (MInt i) = str_int i"

definition execute_user_query :: "exec_context \<Rightarrow> (string \<times> pyval) list" where
  "execute_user_query ctx =
     [(''user_query'', context_get ctx ''query'' (VStr [])),
      (''component_output'', context_get ctx ''query'' (VStr []))]"

fun source_blocks :: "search_result list \<Rightarrow> py_error + string list" where
  \<comment> \<open>the list comprehension of the knowledge-base handler; a metadata dict without
      \<open>filename\<close> raises \<open>KeyError\<close>\<close>
  "source_blocks [] = Inr []"
| "source_blocks (r # rs) =
     (case map_of (metadata r) ''filename'' of
        None \<Rightarrow> Inl (KeyError ''filename'')
      | Some f \<Rightarrow>
          (case source_blocks rs of
             Inl e \<Rightarrow> Inl e
           | Inr blocks \<Rightarrow>
               Inr ((''Source: '' @ str_mval f @ [CHR 0x0A] @ ''Content: '' @ content r)
                    # blocks)))"

definition execute_knowledge_base ::
  "workflow_services \<Rightarrow> (string \<times> pyval) list \<Rightarrow> exec_context \<Rightarrow> int \<Rightarrow> (string \<times> pyval) list" where
  "execute_knowledge_base svc config ctx workflow_id =
     (let document_ids = linked_document_ids svc workflow_id in
      if document_ids = [] then
        [(''knowledge_base_results'', VResults []),
         (''context_text'', VStr []),
         (''component_output'', VStr ''No documents linked to workflow'')]
      else
        (let query = context_get ctx ''query'' (VStr []);
             search_limit = dict_get config ''search_limit'' (VInt 5);
             similarity_threshold = dict_get config ''similarity_threshold'' (VFloat (7/10));
             attempt =
               (case document_search svc query document_ids search_limit similarity_threshold of
                  Inl e \<Rightarrow> Inl e
                | Inr search_results \<Rightarrow>
                    (case source_blocks search_results of
                       Inl e \<Rightarrow> Inl e
                     | Inr blocks \<Rightarrow>
                         Inr (search_results, join [CHR 0x0A, CHR 0x0A] blocks)))
         in case attempt of
              Inr (search_results, context_text) \<Rightarrow>
                [(''knowledge_base_results'', VResults search_results),
                 (''context_text'', VStr context_text),
                 (''component_output'', VStr context_text)]
            | Inl e \<Rightarrow>
                [(''knowledge_base_results'', VResults []),
                 (''context_text'', VStr []),
                 (''component_output'', VStr (''Error searching documents: '' @ err_str e))]))"

definition execute_llm_engine ::
  "workflow_services \<Rightarrow> (string \<times> pyval) list \<Rightarrow> exec_context \<Rightarrow> (string \<times> pyval) list" where
  "execute_llm_engine svc config ctx =
     (let query = context_get ctx ''query'' (VStr []);
          knowledge_context = context_get ctx ''context_text'' (VStr []);
          model = dict_get config ''model'' (VStr ''gemini-1.5-flash'');
          temperature = dict_get config ''temperature'' (VFloat (7/10));
          max_tokens = dict_get config ''max_tokens'' (VInt 1000);
          custom_prompt = dict_get config ''custom_prompt'' (VStr []);
          enable_web_search = dict_get config ''enable_web_search'' (VBool False);
          web_search_queries = dict_get config ''web_search_queries'' (VInt 3);
          attempt =
            (if truthy enable_web_search
             then generate_response_with_web_search svc query knowledge_context model
                    temperature max_tokens custom_prompt web_search_queries
             else generate_response svc query knowledge_context model
                    temperature max_tokens custom_prompt)
      in case attempt of
           Inr result \<Rightarrow>
             [(''llm_response'', VStr (result_response result)),
              (''llm_model'', VStr (result_model result)),
              (''llm_usage'', VUsage (result_usage result)),
              (''web_results'',
                 VWeb (case result_web_results result of None \<Rightarrow> [] | Some w \<Rightarrow> w)),
              (''component_output'', VStr (result_response result))]
         | Inl e \<Rightarrow>
             [(''llm_response'', VStr (''Error generating response: '' @ err_str e)),
              (''llm_model'', model),
              (''llm_usage'', VUsage []),
              (''web_results'', VWeb []),
              (''component_output'', VStr (''Error: '' @ err_str e))])"

fun source_lines :: "(real \<Rightarrow> string) \<Rightarrow> search_result list \<Rightarrow> py_error + string list" where
  \<comment> \<open>the \<open>sources\<close> list of the output handler\<close>
  "source_lines fmt [] = Inr []"
| "source_lines fmt (r # rs) =
     (case map_of (metadata r) ''filename'' of
        None \<Rightarrow> Inl (KeyError ''filename'')
      | Some f \<Rightarrow>
          (case source_lines fmt rs of
             Inl e \<Rightarrow> Inl e
           | Inr lines \<Rightarrow>
               Inr ((''- '' @ str_mval f @ '' (similarity: '' @ fmt (similarity r) @ '')'')
                    # lines)))"

fun append_text :: "pyval \<Rightarrow> string \<Rightarrow> py_error + pyval" where
  \<comment> \<open>\<open>formatted_response += text\<close>. Only a string takes it; no handler stores a list
      under the keys the response is read from.\<close>
  "append_text (VStr s) t = Inr (VStr (s @ t))"
| "append_text v t = Inl (TypeError ''unsupported operand type(s) for +='')"

fun sources_of :: "(real \<Rightarrow> string) \<Rightarrow> pyval \<Rightarrow> py_error + string list" where
  \<comment> \<open>the loop \<open>for result in context["knowledge_base_results"]\<close> over a truthy value\<close>
  "sources_of fmt (VResults rs) = source_lines fmt rs"
| "sources_of fmt (VWeb w) = Inl (KeyError ''metadata'')"
| "sources_of fmt v = Inl (TypeError ''knowledge_base_results is not a list of results'')"

fun execution_time_text :: "(real \<Rightarrow> string) \<Rightarrow> pyval \<Rightarrow> py_error + string" where
  \<comment> \<open>\<open>f"{context['execution_time']:.2f}"\<close> for a truthy value\<close>
  "execution_time_text fmt (VFloat x) = Inr (fmt x)"
| "execution_time_text fmt (VInt i) = Inr (fmt (of_int i))"
| "execution_time_text fmt (VBool b) = Inr (fmt (if b then 1 else 0))"
| "execution_time_text fmt (VStr s) = Inl (ValueError ''Unknown format code f for str'')"
| "execution_time_text fmt v = Inl (TypeError ''unsupported format string'')"

definition execute_output ::
  "workflow_services \<Rightarrow> (string \<times> pyval) list \<Rightarrow> exec_context \<Rightarrow> py_error + (string \<times> pyval) list" where
  "execute_output svc config ctx =
     (let llm = context_get ctx ''llm_response'' VNone;
          resp = (if truthy llm then llm else context_get ctx ''component_output'' (VStr []));
          format_type = dict_get config ''format'' (VStr ''markdown'');
          show_sources = dict_get config ''show_sources'' (VBool True);
          show_execution_time = dict_get config ''show_execution_time'' (VBool False);
          kb = context_get ctx ''knowledge_base_results'' VNone;
          with_sources =
            (if truthy show_sources \<and> truthy kb then
               (case sources_of (format_2f svc) kb of
                  Inl e \<Rightarrow> Inl e
                | Inr sources \<Rightarrow>
                    if sources \<noteq> []
                    then append_text resp
                           ([CHR 0x0A, CHR 0x0A] @ ''**Sources:**'' @ [CHR 0x0A]
                            @ join [CHR 0x0A] sources)
                    else Inr resp)
             else Inr resp)
      in case with_sources of
           Inl e \<Rightarrow> Inl e
         | Inr formatted \<Rightarrow>
             (let t = context_get ctx ''execution_time'' VNone;
                  with_time =
                    (if truthy show_execution_time \<and> truthy t then
                       (case execution_time_text (format_2f svc) t of
                          Inl e \<Rightarrow> Inl e
                        | Inr shown \<Rightarrow>
                            append_text formatted
                              ([CHR 0x0A, CHR 0x0A] @ ''*Execution time: '' @ shown @ ''s*''))
                     else Inr formatted)
              in case with_time of
                   Inl e \<Rightarrow> Inl e
                 | Inr formatted_response \<Rightarrow>
                     Inr [(''final_response'', formatted_response),
                          (''format'', format_type),
                          (''component_output'', formatted_response)]))"

definition execute_component ::
  "workflow_services \<Rightarrow> string \<Rightarrow> (string \<times> pyval) list \<Rightarrow> exec_context \<Rightarrow> int \<Rightarrow>
     py_error + (string \<times> pyval) list" where
  "execute_component svc component_type config ctx workflow_id =
     (if component_type = ''user-query'' then Inr (execute_user_query ctx)
      else if component_type = ''knowledge-base''
        then Inr (execute_knowledge_base svc config ctx workflow_id)
      else if component_type = ''llm-engine'' then Inr (execute_llm_engine svc config ctx)
      else if component_type = ''output'' then execute_output svc config ctx
      else Inl (ValueError (''Unknown component type: '' @ component_type)))"

subsection \<open>execute_workflow\<close>

text \<open>
  The dispatch loop over the execution order carries the context, the log and the
  number of clock readings taken so far. A node id with no node is skipped; an
  exception of a handler leaves the loop and the call.
\<close>

fun run_nodes ::
  "workflow_services \<Rightarrow> int \<Rightarrow> node list \<Rightarrow> string list \<Rightarrow> exec_context \<times> exec_step list \<times> nat \<Rightarrow>
     py_error + exec_context \<times> exec_step list \<times> nat" where
  "run_nodes svc workflow_id nodes [] st = Inr st"
| "run_nodes svc workflow_id nodes (nid # rest) (ctx, steps, k) =
     (case find (\<lambda>n. node_id n = nid) nodes of
        None \<Rightarrow> run_nodes svc workflow_id nodes rest (ctx, steps, k)
      | Some n \<Rightarrow>
          (case execute_component svc (node_type n)
                  (case node_config n of None \<Rightarrow> [] | Some c \<Rightarrow> c) ctx workflow_id of
             Inl e \<Rightarrow> Inl e
           | Inr res \<Rightarrow>
               run_nodes svc workflow_id nodes rest
                 (ctx ++ map_of res,
                  steps @ [\<lparr>component = node_type n, step_node_id = nid, step_result = res,
                           timestamp = clock svc k\<rparr>],
                  Suc k)))"

definition execute_workflow ::
  "workflow_services \<Rightarrow> int \<Rightarrow> string \<Rightarrow> py_error + execution_result" where
  "execute_workflow svc workflow_id query =
     (case find_workflow svc workflow_id of
        None \<Rightarrow> Inl (ValueError (''Workflow '' @ str_int workflow_id @ '' not found''))
      | Some (nodes, edges) \<Rightarrow>
          (case build_execution_order nodes edges of
             Inl e \<Rightarrow> Inl e
           | Inr execution_order \<Rightarrow>
               (case run_nodes svc workflow_id nodes execution_order
                       ([''query'' \<mapsto> VStr query], [], 1) of
                  Inl e \<Rightarrow> Inl e
                | Inr (ctx, steps, k) \<Rightarrow>
                    Inr \<lparr>response =
                           context_get ctx ''final_response'' (VStr ''No response generated''),
                         execution_time = clock svc k - clock svc 0,
                         execution_log = steps,
                         final_context = ctx\<rparr>)))"

subsection \<open>Contexts the handlers produce\<close>






subsection \<open>Example workflows\<close>

text \<open>
  Concrete services and graphs on which the theorems below are evaluated: every
  provider call of \<open>failing_services\<close> raises.
\<close>

definition failing_services :: "node list \<times> edge list \<Rightarrow> workflow_services" where
  "failing_services graph =
     \<lparr>find_workflow = (\<lambda>i. if i = 1 then Some graph else None),
      linked_document_ids = (\<lambda>i. [7]),
      document_search = (\<lambda>q ids limit thr. Inl (Exception ''index unreachable'')),
      generate_response = (\<lambda>q c m t n p. Inl (Exception ''quota exceeded'')),
      generate_response_with_web_search = (\<lambda>q c m t n p w. Inl (Exception ''quota exceeded'')),
      clock = (\<lambda>k. real k),
      format_2f = (\<lambda>x. ''0.00'')\<rparr>"


definition timed_output_graph :: "node list \<times> edge list" where
  "timed_output_graph =
     ([\<lparr>node_id = ''q'', node_type = ''user-query'', node_config = None\<rparr>,
       \<lparr>node_id = ''out'', node_type = ''output'',
         node_config = Some [(''show_execution_time'', VBool True)]\<rparr>],
      [\<lparr>source = ''q'', target = ''out''\<rparr>])"

definition cycle_graph :: "node list \<times> edge list" where
  "cycle_graph =
     ([\<lparr>node_id = ''a'', node_type = ''user-query'', node_config = None\<rparr>,
       \<lparr>node_id = ''b'', node_type = ''output'', node_config = None\<rparr>],
      [\<lparr>source = ''a'', target = ''b''\<rparr>, \<lparr>source = ''b'', target = ''a''\<rparr>])"

definition dangling_graph :: "node list \<times> edge list" where
  "dangling_graph =
     ([\<lparr>node_id = ''q'', node_type = ''user-query'', node_config = None\<rparr>],
      [\<lparr>source = ''q'', target = ''ghost''\<rparr>])"

definition diamond_graph :: "node list \<times> edge list" where
  "diamond_graph =
     ([\<lparr>node_id = ''out'', node_type = ''output'', node_config = None\<rparr>,
       \<lparr>node_id = ''llm'', node_type = ''llm-engine'', node_config = None\<rparr>,
       \<lparr>node_id = ''kb'', node_type = ''knowledge-base'', node_config = None\<rparr>,
       \<lparr>node_id = ''q'', node_type = ''user-query'', node_config = None\<rparr>],
      [\<lparr>source = ''q'', target = ''llm''\<rparr>, \<lparr>source = ''q'', target = ''kb''\<rparr>,
       \<lparr>source = ''kb'', target = ''llm''\<rparr>, \<lparr>source = ''llm'', target = ''out''\<rparr>])"


definition cycle_dangling_graph :: "node list \<times> edge list" where
  "cycle_dangling_graph =
     ([\<lparr>node_id = ''a'', node_type = ''user-query'', node_config = None\<rparr>,
       \<lparr>node_id = ''b'', node_type = ''output'', node_config = None\<rparr>],
      [\<lparr>source = ''a'', target = ''b''\<rparr>, \<lparr>source = ''b'', target = ''a''\<rparr>,
       \<lparr>source = ''a'', target = ''ghost''\<rparr>])"


section \<open>Properties of search_documents\<close>

lemma scan_rows_threshold:
  "list_all (\<lambda>r. thr \<le> similarity r) results \<Longrightarrow>
   list_all (\<lambda>r. thr \<le> similarity r) (scan_rows thr d rows results)"
  by (induction rows arbitrary: results) (auto simp: Let_def split: option.splits)

lemma search_loop_threshold:
  "list_all (\<lambda>r. thr \<le> similarity r) (fst acc) \<Longrightarrow>
   list_all (\<lambda>r. thr \<le> similarity r) (fst (search_loop client index qe limit thr ids acc))"
proof (induction client index qe limit thr ids acc rule: search_loop.induct)
  case (1 client index qe limit thr acc)
  then show ?case by simp
next
  case (2 client index qe limit thr d ids results calls)
  then show ?case
    by (auto simp: Let_def scan_rows_threshold split: option.splits sum.splits)
qed

lemma length_slice_to: "0 \<le> n \<Longrightarrow> int (length (slice_to xs n)) \<le> n"
  by (simp add: slice_to_def clamp_index_def)

lemma set_slice_to: "set (slice_to xs n) \<subseteq> set xs"
  by (simp add: slice_to_def set_take_subset)

lemma sorted_sort_by_similarity_desc:
  "sorted_wrt (\<lambda>a b. similarity b \<le> similarity a) (sort_by_similarity_desc results)"
proof -
  have "sorted (map (\<lambda>r. - similarity r) (sort_key (\<lambda>r. - similarity r) results))"
    by (rule sorted_sort_key)
  then show ?thesis
    by (simp add: sort_by_similarity_desc_def sorted_map)
qed

text \<open>
  Either nothing is returned (no client, or no query embedding), or the list is the
  sorted and cut result of the loop over the documents started on the empty list.
\<close>

lemma search_documents_shape:
  "fst (search_documents svc index query ids limit thr) = [] \<or>
   (\<exists>client qe calls.
      fst (search_documents svc index query ids limit thr) =
        slice_to (sort_by_similarity_desc
                    (fst (search_loop client index qe limit thr ids ([], calls)))) limit)"
proof (cases "chroma_client svc")
  case None
  then show ?thesis by (simp add: search_documents_def)
next
  case (Some client)
  obtain r calls where g: "generate_query_embedding svc query = (r, calls)"
    by (cases "generate_query_embedding svc query")
  show ?thesis
  proof (cases r)
    case (Inl e)
    with Some g show ?thesis by (simp add: search_documents_def)
  next
    case (Inr qe)
    with Some g have
      "fst (search_documents svc index query ids limit thr) =
         slice_to (sort_by_similarity_desc
                     (fst (search_loop client index qe limit thr ids ([], calls)))) limit"
      by (simp add: search_documents_def split: prod.splits)
    then show ?thesis by blast
  qed
qed

lemma search_documents_threshold:
  "list_all (\<lambda>r. thr \<le> similarity r) (fst (search_documents svc index query ids limit thr))"
proof -
  have loop: "list_all (\<lambda>r. thr \<le> similarity r)
          (fst (search_loop client index qe limit thr ids ([], calls)))" for client qe calls
    by (rule search_loop_threshold) simp
  have "set (slice_to (sort_by_similarity_desc xs) limit) \<subseteq> set xs" for xs :: "search_result list"
    using set_slice_to[of "sort_by_similarity_desc xs" limit]
    by (simp add: sort_by_similarity_desc_def)
  then have "list_all (\<lambda>r. thr \<le> similarity r)
          (slice_to (sort_by_similarity_desc
             (fst (search_loop client index qe limit thr ids ([], calls)))) limit)"
    for client qe calls
    using loop[of client qe calls] unfolding list_all_iff by blast
  with search_documents_shape[of svc index query ids limit thr] show ?thesis
    by auto
qed

lemma search_documents_sorted:
  "sorted_wrt (\<lambda>a b. similarity b \<le> similarity a)
     (fst (search_documents svc index query ids limit thr))"
  using search_documents_shape[of svc index query ids limit thr]
  by (auto simp: slice_to_def sorted_wrt_take sorted_sort_by_similarity_desc)

lemma search_documents_length:
  "0 \<le> limit \<Longrightarrow> int (length (fst (search_documents svc index query ids limit thr))) \<le> limit"
  using search_documents_shape[of svc index query ids limit thr]
  by (auto simp: length_slice_to)

text \<open>
  C2, amended: for a limit that is not negative, every element of the list returned by
  \<open>search_documents\<close> has a similarity of at least the threshold, the list has at most
  \<open>limit\<close> elements, and it is sorted by similarity in descending order.
\<close>

theorem search_results_filtered_bounded_sorted:
  assumes "0 \<le> limit"
  shows "(\<forall>r \<in> set (fst (search_documents svc index query document_ids limit thr)).
            thr \<le> similarity r)
         \<and> int (length (fst (search_documents svc index query document_ids limit thr))) \<le> limit
         \<and> sorted_wrt (\<lambda>a b. similarity b \<le> similarity a)
             (fst (search_documents svc index query document_ids limit thr))"
  using assms search_documents_threshold[of thr svc index query document_ids limit]
  by (simp add: search_documents_sorted search_documents_length list_all_iff)

lemma clean_text_q: "clean_text ''q'' = ''q''"
  by (simp add: clean_text_def strip_def is_space_def split_str_def)

lemma example_search:
  "fst (search_documents example_service example_index ''q'' [1, 2] 5 (7/10)) =
     [\<lparr>content = ''A'', metadata = [(''filename'', MStr ''f.pdf'')], similarity = 9/10,
        document_id = 1, chunk_index = MInt 0, filename = MStr ''f.pdf''\<rparr>,
      \<lparr>content = ''C'', metadata = [(''filename'', MStr ''f.pdf'')], similarity = 4/5,
        document_id = 1, chunk_index = MInt 0, filename = MStr ''f.pdf''\<rparr>]"
  by (simp add: search_documents_def generate_query_embedding_def clean_text_q
      example_service_def example_client_def example_index_def
      collection_name_def str_int_def str_nat.simps sort_by_similarity_desc_def slice_to_def
      clamp_index_def dict_get_def Let_def)

theorem search_results_filtered_bounded_sorted_witness:
  "(0::int) \<le> 5
   \<and> list_all (\<lambda>r. 7/10 \<le> similarity r)
       (fst (search_documents example_service example_index ''q'' [1, 2] 5 (7/10)))
   \<and> int (length (fst (search_documents example_service example_index ''q'' [1, 2] 5 (7/10)))) \<le> 5
   \<and> sorted_wrt (\<lambda>a b. similarity b \<le> similarity a)
       (fst (search_documents example_service example_index ''q'' [1, 2] 5 (7/10)))
   \<and> length (fst (search_documents example_service example_index ''q'' [1, 2] 5 (7/10))) = 2"
  using search_results_filtered_bounded_sorted
    [of 5 example_service example_index "''q''" "[1, 2]" "7/10"]
  by (simp add: list_all_iff example_search)

text \<open>
  With an empty list of document ids the loop does nothing: the result is empty and
  the calls are those of the query embedding, if it was attempted.
\<close>

lemma search_no_documents:
  "search_documents svc index query [] limit thr =
     ([], case chroma_client svc of
            None \<Rightarrow> []
          | Some client \<Rightarrow> snd (generate_query_embedding svc query))"
  by (simp add: search_documents_def sort_by_similarity_desc_def slice_to_def
      split: option.splits sum.splits prod.splits)

text \<open>
  C2 (filtering, bounding and ordering of search results), as the claim states it for
  every call, fails on the bound: \<open>results[:limit]\<close> with a negative limit drops
  elements from the end, and the empty list it returns here is longer than \<open>-1\<close>.
\<close>

theorem search_negative_limit_counterexample:
  "fst (search_documents example_service example_index ''q'' [] (- 1) (7/10)) = []
   \<and> \<not> int (length (fst (search_documents example_service example_index ''q'' [] (- 1) (7/10)))) \<le> - 1"
  by (simp add: search_no_documents)

subsection \<open>The cleaned query is empty exactly for a blank query\<close>

lemma split_from_Nil_iff: "split_from w s = [] \<longleftrightarrow> w = [] \<and> list_all is_space s"
  by (induction s arbitrary: w) auto

lemma split_from_words: "x \<in> set (split_from w s) \<Longrightarrow> x \<noteq> []"
  by (induction s arbitrary: w) (auto split: if_splits)

lemma join_Nil_iff: "(\<forall>x \<in> set ws. x \<noteq> []) \<Longrightarrow> join sep ws = [] \<longleftrightarrow> ws = []"
  by (induction sep ws rule: join.induct) auto

lemma in_dropWhile: "x \<in> set xs \<Longrightarrow> \<not> P x \<Longrightarrow> x \<in> set (dropWhile P xs)"
  by (induction xs) auto

lemma dropWhile_all: "list_all P xs \<Longrightarrow> dropWhile P xs = []"
  by (induction xs) auto

lemma dropWhile_Nil_all: "dropWhile P xs = [] \<Longrightarrow> list_all P xs"
  by (induction xs) (auto split: if_splits)

lemma strip_Nil_iff: "strip s = [] \<longleftrightarrow> list_all is_space s"
proof
  assume "list_all is_space s"
  then have "dropWhile is_space s = []" by (rule dropWhile_all)
  then show "strip s = []" by (simp add: strip_def del: dropWhile_eq_Nil_conv)
next
  assume e: "strip s = []"
  let ?u = "dropWhile is_space s"
  have "?u = []"
  proof (rule ccontr)
    assume ne: "?u \<noteq> []"
    then have "\<not> is_space (hd ?u)" by (rule hd_dropWhile)
    moreover have "hd ?u \<in> set (rev ?u)" using ne by simp
    ultimately have "hd ?u \<in> set (dropWhile is_space (rev ?u))" by (rule in_dropWhile[rotated])
    then have "hd ?u \<in> set (strip s)" by (simp add: strip_def)
    with e show False by simp
  qed
  then show "list_all is_space s" by (rule dropWhile_Nil_all)
qed

lemma list_all_space_strip: "list_all is_space (strip s) \<longleftrightarrow> list_all is_space s"
proof
  assume "list_all is_space s"
  then have "strip s = []" by (simp add: strip_Nil_iff)
  then show "list_all is_space (strip s)" by simp
next
  assume a: "list_all is_space (strip s)"
  let ?u = "dropWhile is_space s"
  have "?u = []"
  proof (rule ccontr)
    assume ne: "?u \<noteq> []"
    then have ns: "\<not> is_space (hd ?u)" by (rule hd_dropWhile)
    moreover have "hd ?u \<in> set (rev ?u)" using ne by simp
    ultimately have "hd ?u \<in> set (dropWhile is_space (rev ?u))" by (rule in_dropWhile[rotated])
    then have "hd ?u \<in> set (strip s)" by (simp add: strip_def)
    with a ns show False by (simp add: list_all_iff)
  qed
  then show "list_all is_space s" by (rule dropWhile_Nil_all)
qed

lemma clean_text_Nil_iff: "clean_text t = [] \<longleftrightarrow> list_all is_space t"
proof (cases "t = []")
  case True
  then show ?thesis by (simp add: clean_text_def)
next
  case False
  let ?c = "join '' '' (split_str (strip t))"
  have "?c = [] \<longleftrightarrow> split_str (strip t) = []"
    by (rule join_Nil_iff) (auto simp: split_str_def dest: split_from_words)
  also have "\<dots> \<longleftrightarrow> list_all is_space (strip t)"
    by (simp add: split_str_def split_from_Nil_iff)
  also have "\<dots> \<longleftrightarrow> list_all is_space t" by (rule list_all_space_strip)
  finally have c: "?c = [] \<longleftrightarrow> list_all is_space t" .
  have "clean_text t = [] \<longleftrightarrow> ?c = []"
    using False by (auto simp: clean_text_def Let_def slice_to_def clamp_index_def)
  with c show ?thesis by simp
qed

text \<open>
  C8, amended: with an empty list of document ids \<open>search_documents\<close> returns the empty
  list, raises nothing and makes no call to the vector index. It calls the embedding
  provider at most once: once, for the cleaned query and before it looks at the list,
  when the vector client is available and the query is not blank; not at all when
  there is no client or the query is blank.
\<close>

theorem search_empty_document_list:
  "search_documents svc index query [] limit thr =
     ([], if chroma_client svc = None \<or> list_all is_space query then []
          else [EmbedContent (clean_text query)])"
proof (cases "chroma_client svc")
  case None
  then show ?thesis by (simp add: search_no_documents)
next
  case (Some client)
  then show ?thesis
    using clean_text_Nil_iff[of query]
    by (simp add: search_no_documents generate_query_embedding_def Let_def split: sum.splits)
qed

text \<open>
  C8 (no provider call on an empty document list), as the claim states it, fails: the
  query embedding is requested before the loop over the documents.
\<close>

theorem search_empty_list_embeds_counterexample:
  "snd (search_documents example_service example_index ''q'' [] 5 (7/10))
     = [EmbedContent ''q'']
   \<and> snd (search_documents example_service example_index ''q'' [] 5 (7/10)) \<noteq> []"
  by (simp add: search_no_documents generate_query_embedding_def clean_text_q
      example_service_def)

section \<open>Properties of the ingestion\<close>







section \<open>Properties of the execution order\<close>

definition succs :: "edge list \<Rightarrow> string \<Rightarrow> string list" where
  "succs edges c = map target (filter (\<lambda>e. source e = c) edges)"

definition remaining :: "edge list \<Rightarrow> string list \<Rightarrow> string \<Rightarrow> nat" where
  "remaining edges seen n =
     length (filter (\<lambda>e. target e = n \<and> source e \<notin> set seen) edges)"

fun index_of :: "'a list \<Rightarrow> 'a \<Rightarrow> nat" where
  "index_of [] x = 0"
| "index_of (y # ys) x = (if x = y then 0 else Suc (index_of ys x))"

lemma update_fresh: "k \<notin> fst ` set al \<Longrightarrow> AList.update k v al = al @ [(k, v)]"
  by (induction al) auto

lemma init_dict_distinct:
  assumes "distinct (map node_id nodes)"
  shows "init_dict nodes v = map (\<lambda>n. (node_id n, v)) nodes"
proof -
  have "distinct (map fst acc @ map node_id ns) \<Longrightarrow>
        foldl (\<lambda>d n. AList.update (node_id n) v d) acc ns = acc @ map (\<lambda>n. (node_id n, v)) ns"
    for acc ns
  proof (induction ns arbitrary: acc)
    case Nil
    then show ?case by simp
  next
    case (Cons n ns)
    then have fresh: "node_id n \<notin> fst ` set acc" by auto
    have "distinct (map fst (acc @ [(node_id n, v)]) @ map node_id ns)"
      using Cons.prems by auto
    from Cons.IH[OF this] show ?case
      by (simp add: update_fresh[OF fresh])
  qed
  from this[of "[]" nodes] assms show ?thesis
    by (simp add: init_dict_def)
qed

lemma add_edges_result:
  assumes "\<forall>e \<in> set es. source e \<in> fst ` set graph \<and> target e \<in> fst ` set in_degree"
  shows "\<exists>graph' in_degree'.
           add_edges es graph in_degree = Inr (graph', in_degree') \<and>
           map fst graph' = map fst graph \<and> map fst in_degree' = map fst in_degree \<and>
           (\<forall>k. map_of graph' k =
                  map_option (\<lambda>ts. ts @ succs es k) (map_of graph k)) \<and>
           (\<forall>k. map_of in_degree' k =
                  map_option (\<lambda>d. d + int (length (filter (\<lambda>e. target e = k) es)))
                    (map_of in_degree k))"
  using assms
proof (induction es arbitrary: graph in_degree)
  case Nil
  then show ?case by (simp add: succs_def option.map_ident)
next
  case (Cons e es)
  have "map_of graph (source e) \<noteq> None" "map_of in_degree (target e) \<noteq> None"
    using Cons.prems by (simp_all add: map_of_eq_None_iff)
  then obtain ts d where
    ts: "map_of graph (source e) = Some ts" and d: "map_of in_degree (target e) = Some d"
    by auto
  let ?g = "AList.update (source e) (ts @ [target e]) graph"
  let ?d = "AList.update (target e) (d + 1) in_degree"
  have keys: "map fst ?g = map fst graph" "map fst ?d = map fst in_degree"
    using Cons.prems by (auto simp: update_keys)
  then have "\<forall>e \<in> set es. source e \<in> fst ` set ?g \<and> target e \<in> fst ` set ?d"
    using Cons.prems by (auto simp: dom_update)
  from Cons.IH[OF this] obtain graph' in_degree' where
    r: "add_edges es ?g ?d = Inr (graph', in_degree')"
    and k: "map fst graph' = map fst ?g" "map fst in_degree' = map fst ?d"
    and g: "\<And>k. map_of graph' k = map_option (\<lambda>ts. ts @ succs es k) (map_of ?g k)"
    and dd: "\<And>k. map_of in_degree' k =
              map_option (\<lambda>d. d + int (length (filter (\<lambda>e. target e = k) es))) (map_of ?d k)"
    by blast
  have "add_edges (e # es) graph in_degree = Inr (graph', in_degree')"
    using ts d r by simp
  moreover have "map_of graph' k = map_option (\<lambda>ts. ts @ succs (e # es) k) (map_of graph k)" for k
    using ts by (cases "map_of graph k") (auto simp: g update_conv' succs_def)
  moreover have "map_of in_degree' k =
      map_option (\<lambda>d. d + int (length (filter (\<lambda>e. target e = k) (e # es)))) (map_of in_degree k)"
    for k
    using d by (cases "map_of in_degree k") (auto simp: dd update_conv')
  ultimately show ?case using k keys by auto
qed

lemma zero_keys:
  "distinct (map fst al) \<Longrightarrow>
   map fst (filter (\<lambda>(k, d). d = (0::int)) al) = filter (\<lambda>k. map_of al k = Some 0) (map fst al)"
proof (induction al)
  case Nil
  then show ?case by simp
next
  case (Cons p al)
  obtain k d where p: "p = (k, d)" by (cases p)
  have "filter (\<lambda>k'. map_of (p # al) k' = Some 0) (map fst al)
        = filter (\<lambda>k'. map_of al k' = Some 0) (map fst al)"
    using Cons.prems p by (intro filter_cong) auto
  with Cons p show ?case by auto
qed

lemma relax_result:
  assumes "set ns \<subseteq> fst ` set in_degree"
  shows "\<exists>in_degree' added.
           relax ns in_degree queue = Inr (in_degree', queue @ added) \<and>
           map fst in_degree' = map fst in_degree \<and>
           (\<forall>k. map_of in_degree' k =
                  map_option (\<lambda>d. d - int (count_list ns k)) (map_of in_degree k)) \<and>
           distinct added \<and>
           set added = {k \<in> set ns. \<exists>d. map_of in_degree k = Some d \<and> 1 \<le> d \<and>
                                      d \<le> int (count_list ns k)}"
  using assms
proof (induction ns arbitrary: in_degree queue)
  case Nil
  then show ?case by (simp add: option.map_ident)
next
  case (Cons n ns)
  have "map_of in_degree n \<noteq> None"
    using Cons.prems by (simp add: map_of_eq_None_iff)
  then obtain d where d: "map_of in_degree n = Some d" by auto
  let ?deg1 = "AList.update n (d - 1) in_degree"
  let ?new = "if d - 1 = 0 then [n] else []"
  have keys1: "map fst ?deg1 = map fst in_degree"
    using Cons.prems by (auto simp: update_keys)
  have "set ns \<subseteq> fst ` set ?deg1"
    using Cons.prems by (auto simp: dom_update)
  from Cons.IH[OF this, of "queue @ ?new"] obtain in_degree' added' where
    r: "relax ns ?deg1 (queue @ ?new) = Inr (in_degree', (queue @ ?new) @ added')"
    and keys: "map fst in_degree' = map fst ?deg1"
    and vals: "\<And>k. map_of in_degree' k =
                 map_option (\<lambda>d. d - int (count_list ns k)) (map_of ?deg1 k)"
    and dist: "distinct added'"
    and added': "set added' = {k \<in> set ns. \<exists>d'. map_of ?deg1 k = Some d' \<and> 1 \<le> d' \<and>
                                      d' \<le> int (count_list ns k)}"
    by blast
  have run: "relax (n # ns) in_degree queue = Inr (in_degree', queue @ (?new @ added'))"
    using d r by (simp split: if_splits)
  have v: "map_of in_degree' k =
             map_option (\<lambda>d. d - int (count_list (n # ns) k)) (map_of in_degree k)" for k
    using d by (cases "map_of in_degree k") (auto simp: vals update_conv')
  have n_out: "d - 1 = 0 \<Longrightarrow> n \<notin> set added'"
    by (simp add: added' update_conv')
  have di: "distinct (?new @ added')"
    using dist n_out by simp
  have se: "set (?new @ added') =
              {k \<in> set (n # ns). \<exists>d. map_of in_degree k = Some d \<and> 1 \<le> d \<and>
                                      d \<le> int (count_list (n # ns) k)}"
  proof (intro set_eqI iffI)
    fix k assume "k \<in> set (?new @ added')"
    then consider "k = n" "d = 1" | "k \<in> set added'" by (auto split: if_splits)
    then show "k \<in> {k \<in> set (n # ns). \<exists>d. map_of in_degree k = Some d \<and> 1 \<le> d \<and>
                                      d \<le> int (count_list (n # ns) k)}"
    proof cases
      case 1
      with d show ?thesis by simp
    next
      case 2
      with d show ?thesis
        by (cases "k = n") (auto simp: added' update_conv')
    qed
  next
    fix k assume "k \<in> {k \<in> set (n # ns). \<exists>d. map_of in_degree k = Some d \<and> 1 \<le> d \<and>
                                      d \<le> int (count_list (n # ns) k)}"
    then obtain dk where k: "k \<in> set (n # ns)" "map_of in_degree k = Some dk" "1 \<le> dk"
      "dk \<le> int (count_list (n # ns) k)" by blast
    show "k \<in> set (?new @ added')"
    proof (cases "k = n")
      case False
      with k show ?thesis by (auto simp: added' update_conv')
    next
      case True
      with k d have dk: "dk = d" by simp
      show ?thesis
      proof (cases "d = 1")
        case True
        with \<open>k = n\<close> show ?thesis by simp
      next
        case False
        with k dk True have "1 \<le> d - 1" "d - 1 \<le> int (count_list ns n)" by auto
        moreover from this have "n \<in> set ns"
          by (cases "n \<in> set ns") (auto simp: count_list_0_iff)
        ultimately show ?thesis using True by (auto simp: added' update_conv')
      qed
    qed
  qed
  show ?case
    using run keys keys1 v di se by (intro exI[of _ in_degree'] exI[of _ "?new @ added'"]) simp
qed

definition kahn_inv ::
  "string list \<Rightarrow> edge list \<Rightarrow> (string \<times> int) list \<Rightarrow> string list \<Rightarrow> string list \<Rightarrow> bool" where
  "kahn_inv ids edges in_degree queue seen \<longleftrightarrow>
     map fst in_degree = ids \<and> distinct (seen @ queue) \<and>
     set (seen @ queue) = {n \<in> set ids. remaining edges seen n = 0} \<and>
     (\<forall>n \<in> set ids. map_of in_degree n = Some (int (remaining edges seen n))) \<and>
     (\<forall>e \<in> set edges. target e \<in> set seen \<longrightarrow>
        source e \<in> set seen \<and> index_of seen (source e) < index_of seen (target e))"

lemma index_of_less: "x \<in> set xs \<Longrightarrow> index_of xs x < length xs"
  by (induction xs) auto

lemma index_of_append: "x \<in> set xs \<Longrightarrow> index_of (xs @ ys) x = index_of xs x"
  by (induction xs) auto

lemma index_of_last: "x \<notin> set xs \<Longrightarrow> index_of (xs @ [x]) x = length xs"
  by (induction xs) auto

lemma count_succs:
  "count_list (succs edges c) n = length (filter (\<lambda>e. source e = c \<and> target e = n) edges)"
  by (induction edges) (auto simp: succs_def)

lemma remaining_append:
  "c \<notin> set seen \<Longrightarrow>
   remaining edges seen n = remaining edges (seen @ [c]) n + count_list (succs edges c) n"
  unfolding count_succs remaining_def
  by (induction edges) auto

lemma remaining_zero_iff:
  "remaining edges seen n = 0 \<longleftrightarrow> (\<forall>e \<in> set edges. target e = n \<longrightarrow> source e \<in> set seen)"
  by (auto simp: remaining_def filter_empty_conv)

lemma kahn_inv_step:
  assumes inv: "kahn_inv ids edges in_degree (c # queue) seen"
    and refs: "\<forall>e \<in> set edges. source e \<in> set ids \<and> target e \<in> set ids"
    and run: "relax (succs edges c) in_degree queue = Inr (in_degree', queue')"
  shows "kahn_inv ids edges in_degree' queue' (seen @ [c])"
proof -
  let ?ns = "succs edges c"
  let ?seen = "seen @ [c]"
  from inv have keys: "map fst in_degree = ids"
    and dist: "distinct (seen @ c # queue)"
    and ready: "set (seen @ c # queue) = {n \<in> set ids. remaining edges seen n = 0}"
    and deg: "\<And>n. n \<in> set ids \<Longrightarrow> map_of in_degree n = Some (int (remaining edges seen n))"
    and topo: "\<And>e. e \<in> set edges \<Longrightarrow> target e \<in> set seen \<Longrightarrow>
                 source e \<in> set seen \<and> index_of seen (source e) < index_of seen (target e)"
    by (auto simp: kahn_inv_def)
  have c: "c \<notin> set seen" "c \<in> set ids" "remaining edges seen c = 0"
    using dist ready by auto
  have sub: "set ?ns \<subseteq> set ids" using refs by (auto simp: succs_def)
  have dom: "fst ` set in_degree = set ids" using keys by (metis set_map)
  from relax_result[of ?ns in_degree queue] sub dom run obtain added where
    q': "queue' = queue @ added"
    and keys': "map fst in_degree' = map fst in_degree"
    and vals: "\<And>k. map_of in_degree' k =
                 map_option (\<lambda>d. d - int (count_list ?ns k)) (map_of in_degree k)"
    and dadd: "distinct added"
    and added: "set added = {k \<in> set ?ns. \<exists>d. map_of in_degree k = Some d \<and> 1 \<le> d \<and>
                                      d \<le> int (count_list ?ns k)}"
    by auto
  have rem: "remaining edges seen n = remaining edges ?seen n + count_list ?ns n" for n
    using c(1) by (rule remaining_append)
  have added_iff: "n \<in> set added \<longleftrightarrow>
      n \<in> set ids \<and> remaining edges seen n \<noteq> 0 \<and> remaining edges ?seen n = 0" for n
  proof
    assume "n \<in> set added"
    then have n: "n \<in> set ?ns"
      and "\<exists>d. map_of in_degree n = Some d \<and> 1 \<le> d \<and> d \<le> int (count_list ?ns n)"
      by (auto simp: added)
    with sub deg[of n] have "1 \<le> remaining edges seen n"
      "remaining edges seen n \<le> count_list ?ns n" by auto
    with rem[of n] n sub show
      "n \<in> set ids \<and> remaining edges seen n \<noteq> 0 \<and> remaining edges ?seen n = 0"
      by auto
  next
    assume a: "n \<in> set ids \<and> remaining edges seen n \<noteq> 0 \<and> remaining edges ?seen n = 0"
    with rem[of n] have cnt: "remaining edges seen n = count_list ?ns n" by simp
    with a have "n \<in> set ?ns"
      by (cases "n \<in> set ?ns") (auto simp: count_list_0_iff)
    with a cnt deg[of n] show "n \<in> set added" by (auto simp: added)
  qed
  have "map fst in_degree' = ids" using keys keys' by simp
  moreover have "distinct (?seen @ queue')"
  proof -
    have "set added \<inter> set (seen @ c # queue) = {}"
      using added_iff ready by auto
    with dist dadd show ?thesis by (auto simp: q')
  qed
  moreover have "set (?seen @ queue') = {n \<in> set ids. remaining edges ?seen n = 0}"
  proof (intro set_eqI iffI)
    fix n assume "n \<in> set (?seen @ queue')"
    then consider "n \<in> set (seen @ c # queue)" | "n \<in> set added" by (auto simp: q')
    then show "n \<in> {n \<in> set ids. remaining edges ?seen n = 0}"
    proof cases
      case 1
      with ready rem[of n] show ?thesis by auto
    next
      case 2
      with added_iff show ?thesis by simp
    qed
  next
    fix n assume "n \<in> {n \<in> set ids. remaining edges ?seen n = 0}"
    then have n: "n \<in> set ids" "remaining edges ?seen n = 0" by auto
    show "n \<in> set (?seen @ queue')"
    proof (cases "remaining edges seen n = 0")
      case True
      with n ready have "n \<in> set (seen @ c # queue)" by blast
      then show ?thesis by (auto simp: q')
    next
      case False
      with n added_iff have "n \<in> set added" by simp
      then show ?thesis by (simp add: q')
    qed
  qed
  moreover have "\<forall>n \<in> set ids. map_of in_degree' n = Some (int (remaining edges ?seen n))"
    using deg rem by (auto simp: vals)
  moreover have "\<forall>e \<in> set edges. target e \<in> set ?seen \<longrightarrow>
        source e \<in> set ?seen \<and> index_of ?seen (source e) < index_of ?seen (target e)"
  proof (intro ballI impI)
    fix e assume e: "e \<in> set edges" and t: "target e \<in> set ?seen"
    show "source e \<in> set ?seen \<and> index_of ?seen (source e) < index_of ?seen (target e)"
    proof (cases "target e \<in> set seen")
      case True
      from topo[OF e True] show ?thesis
        by (simp add: index_of_append True)
    next
      case False
      with t have tc: "target e = c" by simp
      with c(3) e have src: "source e \<in> set seen"
        by (auto simp: remaining_zero_iff)
      then show ?thesis
        using c(1) tc by (simp add: index_of_append index_of_last index_of_less)
    qed
  qed
  ultimately show ?thesis by (simp add: kahn_inv_def)
qed

lemma map_of_const:
  "map_of (map (\<lambda>n. (f n, v)) xs) k = (if k \<in> f ` set xs then Some v else None)"
  by (induction xs) auto

lemma kahn_loop_correct:
  assumes refs: "\<forall>e \<in> set edges. source e \<in> set ids \<and> target e \<in> set ids"
    and graph: "\<forall>k \<in> set ids. map_of graph k = Some (succs edges k)"
    and inv: "kahn_inv ids edges in_degree queue seen"
  shows "\<exists>res in_degree'. kahn_loop graph in_degree queue seen = Inr res \<and>
           kahn_inv ids edges in_degree' [] res"
  using graph inv
proof (induction graph in_degree queue seen rule: kahn_loop.induct)
  case (1 graph in_degree execution_order)
  then show ?case by auto
next
  case (2 graph in_degree current queue execution_order)
  from "2.prems"(2) have cur: "current \<in> set ids"
    by (auto simp: kahn_inv_def)
  with "2.prems"(1) have g: "map_of graph current = Some (succs edges current)" by simp
  have "set (succs edges current) \<subseteq> fst ` set in_degree"
  proof -
    have "fst ` set in_degree = set ids"
      using "2.prems"(2) by (metis kahn_inv_def set_map)
    then show ?thesis using refs by (auto simp: succs_def)
  qed
  from relax_result[OF this, of queue] obtain in_degree' queue' where
    r: "relax (succs edges current) in_degree queue = Inr (in_degree', queue')"
    by blast
  have "kahn_inv ids edges in_degree' queue' (execution_order @ [current])"
    using "2.prems"(2) refs r by (rule kahn_inv_step)
  from "2.IH"[OF g r refl "2.prems"(1) this] show ?case
    using g r by simp
qed

definition edge_rel :: "edge list \<Rightarrow> (string \<times> string) set" where
  "edge_rel edges = (\<lambda>e. (source e, target e)) ` set edges"

lemma build_execution_order_correct:
  assumes uniq: "distinct (map node_id nodes)"
    and refs: "\<forall>e \<in> set edges. source e \<in> node_id ` set nodes \<and> target e \<in> node_id ` set nodes"
  shows "\<exists>res. build_execution_order nodes edges = Inr res \<and> distinct res \<and>
           set res = {n \<in> node_id ` set nodes. remaining edges res n = 0} \<and>
           (\<forall>e \<in> set edges. target e \<in> set res \<longrightarrow>
              source e \<in> set res \<and> index_of res (source e) < index_of res (target e))"
proof -
  let ?ids = "map node_id nodes"
  let ?g0 = "init_dict nodes ([]::string list)"
  let ?d0 = "init_dict nodes (0::int)"
  have g0: "?g0 = map (\<lambda>n. (node_id n, [])) nodes" and d0: "?d0 = map (\<lambda>n. (node_id n, 0)) nodes"
    using uniq by (simp_all add: init_dict_distinct)
  have k0: "map fst ?g0 = ?ids" "map fst ?d0 = ?ids"
    by (simp_all add: g0 d0 comp_def)
  have m0: "map_of ?g0 k = (if k \<in> set ?ids then Some [] else None)"
           "map_of ?d0 k = (if k \<in> set ?ids then Some 0 else None)" for k
    by (simp_all add: g0 d0 map_of_const)
  have refs': "\<forall>e \<in> set edges. source e \<in> set ?ids \<and> target e \<in> set ?ids"
    using refs by simp
  have "\<forall>e \<in> set edges. source e \<in> fst ` set ?g0 \<and> target e \<in> fst ` set ?d0"
    using refs by (simp add: g0 d0 image_image)
  from add_edges_result[OF this] obtain graph in_degree where
    built: "add_edges edges ?g0 ?d0 = Inr (graph, in_degree)"
    and keys: "map fst graph = ?ids" "map fst in_degree = ?ids"
    and g: "\<And>k. map_of graph k = map_option (\<lambda>ts. ts @ succs edges k) (map_of ?g0 k)"
    and d: "\<And>k. map_of in_degree k =
              map_option (\<lambda>d. d + int (length (filter (\<lambda>e. target e = k) edges))) (map_of ?d0 k)"
    using k0 by auto
  have deg: "map_of in_degree k = Some (int (remaining edges [] k))" if "k \<in> set ?ids" for k
    using that by (simp add: d m0 remaining_def)
  let ?queue = "map fst (filter (\<lambda>(k, d). d = 0) in_degree)"
  have queue: "?queue = filter (\<lambda>k. remaining edges [] k = 0) ?ids"
  proof -
    have "?queue = filter (\<lambda>k. map_of in_degree k = Some 0) (map fst in_degree)"
      using uniq keys by (intro zero_keys) simp
    also have "\<dots> = filter (\<lambda>k. remaining edges [] k = 0) ?ids"
      unfolding keys by (intro filter_cong) (auto simp: deg)
    finally show ?thesis .
  qed
  have inv: "kahn_inv ?ids edges in_degree ?queue []"
    unfolding kahn_inv_def queue using keys uniq deg by (auto simp: distinct_map_filter)
  have "\<forall>k \<in> set ?ids. map_of graph k = Some (succs edges k)"
    by (simp add: g m0)
  from kahn_loop_correct[OF refs' this inv] obtain res in_degree' where
    "kahn_loop graph in_degree ?queue [] = Inr res" "kahn_inv ?ids edges in_degree' [] res"
    by blast
  then show ?thesis
    using built by (auto simp: build_execution_order_def kahn_inv_def)
qed



lemma unvisited_has_unvisited_pred:
  assumes "acyclic (edge_rel edges)"
    and "\<And>n. n \<in> X \<Longrightarrow> \<exists>e \<in> set edges. target e = n \<and> source e \<in> X"
  shows "X = {}"
proof (rule ccontr)
  assume "X \<noteq> {}"
  then obtain x where "x \<in> X" by blast
  have "finite (edge_rel edges)" by (simp add: edge_rel_def)
  then have "wf (edge_rel edges)" using assms(1) by (rule finite_acyclic_wf)
  from wfE_min[OF this \<open>x \<in> X\<close>] obtain z where
    z: "z \<in> X" "\<And>y. (y, z) \<in> edge_rel edges \<Longrightarrow> y \<notin> X"
    by blast
  from assms(2)[OF z(1)] obtain e where "e \<in> set edges" "target e = z" "source e \<in> X"
    by blast
  moreover from this have "(source e, z) \<in> edge_rel edges"
    by (auto simp: edge_rel_def)
  ultimately show False using z(2) by blast
qed

text \<open>
  C1 (topological validity of the execution order). For a graph with unique node ids
  whose edges reference existing ids and which is acyclic, \<open>_build_execution_order\<close>
  returns an order that contains every node exactly once, and for every edge the source
  comes strictly before the target.
\<close>

theorem build_execution_order_topological:
  assumes "distinct (map node_id nodes)"
    and "\<forall>e \<in> set edges. source e \<in> node_id ` set nodes \<and> target e \<in> node_id ` set nodes"
    and "acyclic (edge_rel edges)"
  shows "\<exists>execution_order.
           build_execution_order nodes edges = Inr execution_order \<and>
           distinct execution_order \<and>
           set execution_order = node_id ` set nodes \<and>
           length execution_order = length nodes \<and>
           (\<forall>e \<in> set edges.
              index_of execution_order (source e) < index_of execution_order (target e))"
proof -
  from build_execution_order_correct[OF assms(1,2)] obtain res where
    run: "build_execution_order nodes edges = Inr res" and dist: "distinct res"
    and ready: "set res = {n \<in> node_id ` set nodes. remaining edges res n = 0}"
    and topo: "\<And>e. e \<in> set edges \<Longrightarrow> target e \<in> set res \<Longrightarrow>
                 index_of res (source e) < index_of res (target e)"
    by blast
  from equalityD1[OF ready] have sub: "set res \<subseteq> node_id ` set nodes"
    by auto
  from equalityD2[OF ready] have sup:
    "n \<in> node_id ` set nodes \<Longrightarrow> remaining edges res n = 0 \<Longrightarrow> n \<in> set res" for n
    by auto
  have "node_id ` set nodes - set res = {}"
  proof (rule unvisited_has_unvisited_pred[OF assms(3)])
    fix n assume n: "n \<in> node_id ` set nodes - set res"
    with sup have "remaining edges res n \<noteq> 0" by auto
    then obtain e where e: "e \<in> set edges" "target e = n" "source e \<notin> set res"
      by (auto simp: remaining_zero_iff)
    with assms(2) have "source e \<in> node_id ` set nodes - set res" by simp
    with e show "\<exists>e \<in> set edges. target e = n \<and> source e \<in> node_id ` set nodes - set res"
      by (intro bexI[of _ e]) simp_all
  qed
  with sub have all: "set res = node_id ` set nodes" by auto
  have "length res = card (set res)" using dist by (simp add: distinct_card)
  also have "\<dots> = card (set (map node_id nodes))" by (simp add: all)
  also have "\<dots> = length (map node_id nodes)" using assms(1) by (rule distinct_card)
  finally have len: "length res = length nodes" by simp
  have "index_of res (source e) < index_of res (target e)" if "e \<in> set edges" for e
    using topo[OF that] assms(2) all that by simp
  with run dist all len show ?thesis by simp
qed




lemma init_dict_map_of:
  "map_of (init_dict nodes v) k = (if k \<in> node_id ` set nodes then Some v else None)"
proof -
  have "map_of (foldl (\<lambda>d n. AList.update (node_id n) v d) acc ns) k =
          (if k \<in> node_id ` set ns then Some v else map_of acc k)"
    for acc and ns :: "node list"
    by (induction ns arbitrary: acc) (auto simp: update_conv')
  then show ?thesis by (simp add: init_dict_def)
qed

lemma init_dict_keys: "fst ` set (init_dict nodes v) = node_id ` set nodes"
proof -
  have "fst ` set (init_dict nodes v) = dom (map_of (init_dict nodes v))"
    by (simp add: dom_map_of_conv_image_fst)
  also have "\<dots> = node_id ` set nodes"
    by (auto simp: init_dict_map_of dom_def)
  finally show ?thesis .
qed

lemma init_dict_distinct_keys: "distinct (map fst (init_dict nodes v))"
proof -
  have "distinct (map fst acc) \<Longrightarrow>
        distinct (map fst (foldl (\<lambda>d n. AList.update (node_id n) v d) acc ns))"
    for acc and ns :: "node list"
    by (induction ns arbitrary: acc) (auto simp: distinct_update)
  then show ?thesis by (simp add: init_dict_def)
qed

lemma build_execution_order_all_on_cycles:
  assumes refs: "\<forall>e \<in> set edges. source e \<in> node_id ` set nodes \<and> target e \<in> node_id ` set nodes"
    and cyc: "\<forall>n \<in> node_id ` set nodes. (n, n) \<in> (edge_rel edges)\<^sup>+"
  shows "build_execution_order nodes edges = Inr []"
proof -
  let ?g0 = "init_dict nodes ([]::string list)"
  let ?d0 = "init_dict nodes (0::int)"
  have "\<forall>e \<in> set edges. source e \<in> fst ` set ?g0 \<and> target e \<in> fst ` set ?d0"
    using refs by (simp add: init_dict_keys)
  from add_edges_result[OF this] obtain graph in_degree where
    built: "add_edges edges ?g0 ?d0 = Inr (graph, in_degree)"
    and keys: "map fst in_degree = map fst ?d0"
    and d: "\<And>k. map_of in_degree k =
              map_option (\<lambda>d. d + int (length (filter (\<lambda>e. target e = k) edges))) (map_of ?d0 k)"
    by auto
  have "filter (\<lambda>(k, d). d = 0) in_degree = []"
  proof (clarsimp simp: filter_empty_conv)
    fix k assume kd: "(k, 0) \<in> set in_degree"
    have "distinct (map fst in_degree)" using keys by (simp add: init_dict_distinct_keys)
    with kd have m: "map_of in_degree k = Some 0" by simp
    have "k \<in> fst ` set in_degree" using kd by force
    then have k: "k \<in> node_id ` set nodes"
      using keys init_dict_keys[of nodes "0::int"] by (metis set_map)
    with cyc have "(k, k) \<in> (edge_rel edges)\<^sup>+" by blast
    then obtain z where "(z, k) \<in> edge_rel edges" by (meson tranclD2)
    then obtain e where "e \<in> set edges" "target e = k" by (auto simp: edge_rel_def)
    then have "filter (\<lambda>e. target e = k) edges \<noteq> []" by (auto simp: filter_empty_conv)
    with m k show False by (simp add: d init_dict_map_of)
  qed
  with built show ?thesis by (simp add: build_execution_order_def)
qed

lemma add_edges_dangling:
  assumes "\<exists>e \<in> set es. source e \<notin> fst ` set graph \<or> target e \<notin> fst ` set in_degree"
  shows "\<exists>k. add_edges es graph in_degree = Inl (KeyError k)"
  using assms
proof (induction es arbitrary: graph in_degree)
  case Nil
  then show ?case by simp
next
  case (Cons e es)
  show ?case
  proof (cases "map_of graph (source e)")
    case None
    then show ?thesis by simp
  next
    case ts: (Some ts)
    show ?thesis
    proof (cases "map_of in_degree (target e)")
      case None
      with ts show ?thesis by simp
    next
      case (Some d)
      let ?g = "AList.update (source e) (ts @ [target e]) graph"
      let ?d = "AList.update (target e) (d + 1) in_degree"
      have here: "source e \<in> fst ` set graph" "target e \<in> fst ` set in_degree"
        using ts Some by (auto dest: map_of_SomeD intro: rev_image_eqI)
      then have "fst ` set ?g = fst ` set graph" "fst ` set ?d = fst ` set in_degree"
        by (auto simp: dom_update)
      with Cons.prems here
      have "\<exists>e \<in> set es. source e \<notin> fst ` set ?g \<or> target e \<notin> fst ` set ?d"
        by auto
      from Cons.IH[OF this] ts Some show ?thesis by simp
    qed
  qed
qed

lemma build_execution_order_dangling:
  assumes "\<exists>e \<in> set edges. source e \<notin> node_id ` set nodes \<or> target e \<notin> node_id ` set nodes"
  shows "\<exists>k. build_execution_order nodes edges = Inl (KeyError k)"
proof -
  from assms have "\<exists>e \<in> set edges. source e \<notin> fst ` set (init_dict nodes ([]::string list)) \<or>
                     target e \<notin> fst ` set (init_dict nodes (0::int))"
    by (simp add: init_dict_keys)
  from add_edges_dangling[OF this] show ?thesis
    by (auto simp: build_execution_order_def)
qed

section \<open>Properties of execute_workflow\<close>

lemma timed_output_run:
  "execute_workflow (failing_services timed_output_graph) 1 ''hi'' =
     Inr \<lparr>response = VStr ''hi'',
          execution_time = 3,
          execution_log =
            [\<lparr>component = ''user-query'', step_node_id = ''q'',
               step_result = [(''user_query'', VStr ''hi''), (''component_output'', VStr ''hi'')],
               timestamp = 1\<rparr>,
             \<lparr>component = ''output'', step_node_id = ''out'',
               step_result = [(''final_response'', VStr ''hi''), (''format'', VStr ''markdown''),
                              (''component_output'', VStr ''hi'')],
               timestamp = 2\<rparr>],
          final_context =
            [''query'' \<mapsto> VStr ''hi'', ''user_query'' \<mapsto> VStr ''hi'',
             ''final_response'' \<mapsto> VStr ''hi'', ''format'' \<mapsto> VStr ''markdown'',
             ''component_output'' \<mapsto> VStr ''hi'']\<rparr>"
  by (simp add: execute_workflow_def failing_services_def timed_output_graph_def
      build_execution_order_def init_dict_def execute_component_def execute_user_query_def
      execute_output_def context_get_def dict_get_def Let_def fun_eq_iff map_add_def)

text \<open>
  C7 (execution-time line of the output node). The claim: an output node whose config
  sets \<open>show_execution_time\<close> gets an execution-time line appended to the response. The
  handler appends the line only when the context holds a truthy \<open>execution_time\<close>,
  and no handler and no step of \<open>execute_workflow\<close> ever writes that key (the time is
  computed after the loop and returned beside the context). On the graph user-query
  \<open>\<rightarrow>\<close> output with \<open>show_execution_time = True\<close> and the query \<open>hi\<close>, the response
  is \<open>hi\<close>, with no line added.
\<close>

theorem output_execution_time_never_shown:
  "dict_get [(''show_execution_time'', VBool True)] ''show_execution_time'' (VBool False)
     = VBool True
   \<and> (\<exists>r. execute_workflow (failing_services timed_output_graph) 1 ''hi'' = Inr r
          \<and> response r = VStr ''hi''
          \<and> final_context r ''execution_time'' = None)"
  by (simp add: timed_output_run dict_get_def)

text \<open>
  C9 (tolerance of dangling edge references). The claim: a graph with an edge that
  names a missing node is still executed, the missing node being skipped at dispatch.
  The dispatch loop has that skip, but \<open>_build_execution_order\<close> runs first and indexes
  both dicts with the ids of every edge: a dangling reference raises \<open>KeyError\<close> there
  and \<open>execute_workflow\<close> fails with it.
\<close>

theorem dangling_edge_raises:
  assumes "find_workflow svc workflow_id = Some (nodes, edges)"
    and "\<exists>e \<in> set edges. source e \<notin> node_id ` set nodes \<or> target e \<notin> node_id ` set nodes"
  shows "\<exists>k. execute_workflow svc workflow_id query = Inl (KeyError k)"
  using build_execution_order_dangling[OF assms(2)] assms(1)
  by (auto simp: execute_workflow_def)

theorem dangling_edge_raises_witness:
  "find_workflow (failing_services dangling_graph) 1 = Some dangling_graph
   \<and> target (hd (snd dangling_graph)) \<notin> node_id ` set (fst dangling_graph)
   \<and> execute_workflow (failing_services dangling_graph) 1 ''hi'' = Inl (KeyError ''ghost'')"
proof -
  have f: "find_workflow (failing_services dangling_graph) 1
             = Some (fst dangling_graph, snd dangling_graph)"
    by (simp add: failing_services_def)
  have d: "\<exists>e \<in> set (snd dangling_graph).
             source e \<notin> node_id ` set (fst dangling_graph) \<or>
             target e \<notin> node_id ` set (fst dangling_graph)"
    by (simp add: dangling_graph_def)
  from dangling_edge_raises[OF f d, of "''hi''"] show ?thesis
    by (simp add: execute_workflow_def failing_services_def dangling_graph_def
        build_execution_order_def init_dict_def)
qed

text \<open>
  C3, amended (cycle stall policy and fallback response): for a stored graph whose
  edges reference existing node ids and all of whose nodes lie on a cycle, the
  execution order is empty, no node is executed (the log is empty) and the response is
  the fixed string \<open>No response generated\<close>.
\<close>

theorem cycle_only_graph_stalls:
  assumes "find_workflow svc workflow_id = Some (nodes, edges)"
    and "\<forall>e \<in> set edges. source e \<in> node_id ` set nodes \<and> target e \<in> node_id ` set nodes"
    and "\<forall>n \<in> node_id ` set nodes. (n, n) \<in> (edge_rel edges)\<^sup>+"
  shows "build_execution_order nodes edges = Inr []
         \<and> (\<exists>r. execute_workflow svc workflow_id query = Inr r
                \<and> execution_log r = []
                \<and> response r = VStr ''No response generated'')"
  using build_execution_order_all_on_cycles[OF assms(2,3)] assms(1)
  by (simp add: execute_workflow_def context_get_def)

theorem cycle_only_graph_stalls_witness:
  "find_workflow (failing_services cycle_graph) 1 = Some cycle_graph
   \<and> (''a'', ''a'') \<in> (edge_rel (snd cycle_graph))\<^sup>+
   \<and> (''b'', ''b'') \<in> (edge_rel (snd cycle_graph))\<^sup>+
   \<and> build_execution_order (fst cycle_graph) (snd cycle_graph) = Inr []
   \<and> (\<exists>r. execute_workflow (failing_services cycle_graph) 1 ''hi'' = Inr r
          \<and> execution_log r = []
          \<and> response r = VStr ''No response generated'')"
proof -
  have f: "find_workflow (failing_services cycle_graph) 1
             = Some (fst cycle_graph, snd cycle_graph)"
    by (simp add: failing_services_def)
  have r: "\<forall>e \<in> set (snd cycle_graph).
             source e \<in> node_id ` set (fst cycle_graph) \<and>
             target e \<in> node_id ` set (fst cycle_graph)"
    by (simp add: cycle_graph_def)
  have ab: "(''a'', ''b'') \<in> edge_rel (snd cycle_graph)"
    and ba: "(''b'', ''a'') \<in> edge_rel (snd cycle_graph)"
    by (simp_all add: edge_rel_def cycle_graph_def image_iff)
  have aa: "(''a'', ''a'') \<in> (edge_rel (snd cycle_graph))\<^sup>+"
    using ab ba by (rule trancl_into_trancl[OF r_into_trancl])
  have bb: "(''b'', ''b'') \<in> (edge_rel (snd cycle_graph))\<^sup>+"
    using ba ab by (rule trancl_into_trancl[OF r_into_trancl])
  have c: "\<forall>n \<in> node_id ` set (fst cycle_graph). (n, n) \<in> (edge_rel (snd cycle_graph))\<^sup>+"
    using aa bb by (simp add: cycle_graph_def)
  from cycle_only_graph_stalls[OF f r c, of "''hi''"] f aa bb show ?thesis
    by simp
qed

text \<open>
  C3 (cycle stall policy and fallback response), as the claim states it for every graph
  all of whose nodes lie on a cycle, fails when an edge names a missing node: in the
  graph \<open>a \<rightarrow> b\<close>, \<open>b \<rightarrow> a\<close>, \<open>a \<rightarrow> ghost\<close> both nodes lie on a cycle, and the call raises
  \<open>KeyError\<close> while the in-degrees are counted; there is no order and no response.
\<close>

theorem cycle_with_dangling_edge_counterexample:
  "find_workflow (failing_services cycle_dangling_graph) 1 = Some cycle_dangling_graph
   \<and> node_id ` set (fst cycle_dangling_graph) = {''a'', ''b''}
   \<and> (''a'', ''a'') \<in> (edge_rel (snd cycle_dangling_graph))\<^sup>+
   \<and> (''b'', ''b'') \<in> (edge_rel (snd cycle_dangling_graph))\<^sup>+
   \<and> build_execution_order (fst cycle_dangling_graph) (snd cycle_dangling_graph)
       = Inl (KeyError ''ghost'')
   \<and> execute_workflow (failing_services cycle_dangling_graph) 1 ''hi''
       = Inl (KeyError ''ghost'')"
proof -
  have ab: "(''a'', ''b'') \<in> edge_rel (snd cycle_dangling_graph)"
    and ba: "(''b'', ''a'') \<in> edge_rel (snd cycle_dangling_graph)"
    by (simp_all add: edge_rel_def cycle_dangling_graph_def image_iff)
  have aa: "(''a'', ''a'') \<in> (edge_rel (snd cycle_dangling_graph))\<^sup>+"
    using ab ba by (rule trancl_into_trancl[OF r_into_trancl])
  have bb: "(''b'', ''b'') \<in> (edge_rel (snd cycle_dangling_graph))\<^sup>+"
    using ba ab by (rule trancl_into_trancl[OF r_into_trancl])
  have o: "build_execution_order (fst cycle_dangling_graph) (snd cycle_dangling_graph)
             = Inl (KeyError ''ghost'')"
    by (simp add: cycle_dangling_graph_def build_execution_order_def init_dict_def)
  have e: "execute_workflow (failing_services cycle_dangling_graph) 1 ''hi''
             = Inl (KeyError ''ghost'')"
    by (simp add: execute_workflow_def failing_services_def cycle_dangling_graph_def
        build_execution_order_def init_dict_def)
  have n: "node_id ` set (fst cycle_dangling_graph) = {''a'', ''b''}"
    by (simp add: cycle_dangling_graph_def)
  have f: "find_workflow (failing_services cycle_dangling_graph) 1 = Some cycle_dangling_graph"
    by (simp add: failing_services_def)
  from f n aa bb o e show ?thesis by simp
qed

subsection \<open>Errors of the provider calls inside the handlers\<close>
























lemma diamond_order:
  "build_execution_order (fst diamond_graph) (snd diamond_graph)
     = Inr [''q'', ''kb'', ''llm'', ''out'']"
  by (simp add: diamond_graph_def build_execution_order_def init_dict_def)

theorem build_execution_order_topological_witness:
  "distinct (map node_id (fst diamond_graph))
   \<and> acyclic (edge_rel (snd diamond_graph))
   \<and> build_execution_order (fst diamond_graph) (snd diamond_graph)
       = Inr [''q'', ''kb'', ''llm'', ''out'']
   \<and> index_of [''q'', ''kb'', ''llm'', ''out''] ''q'' < index_of [''q'', ''kb'', ''llm'', ''out''] ''llm''
   \<and> index_of [''q'', ''kb'', ''llm'', ''out''] ''kb'' < index_of [''q'', ''kb'', ''llm'', ''out''] ''llm''
   \<and> index_of [''q'', ''kb'', ''llm'', ''out''] ''llm'' < index_of [''q'', ''kb'', ''llm'', ''out''] ''out''"
proof -
  have d: "distinct (map node_id (fst diamond_graph))"
    by (simp add: diamond_graph_def)
  have r: "\<forall>e \<in> set (snd diamond_graph).
             source e \<in> node_id ` set (fst diamond_graph) \<and>
             target e \<in> node_id ` set (fst diamond_graph)"
    by (simp add: diamond_graph_def)
  have a: "acyclic (edge_rel (snd diamond_graph))"
    by (rule acyclicI_order[where f = "\<lambda>i. if i = ''q'' then 3 else if i = ''kb'' then 2
                                           else if i = ''llm'' then 1 else (0::nat)"])
      (auto simp: edge_rel_def diamond_graph_def)
  from build_execution_order_topological[OF d r a] d a show ?thesis
    by (simp add: diamond_order)
qed

end
